theory Spec2Isabelle
  imports Complex_Main "HOL-Library.Sublist"
begin

section \<open>Configuration\<close>

text \<open>
  \<^verbatim>\<open>Legal_Agent_Interface.py\<close>, lines 20-21. Times are seconds. Python computes them
  as floats; the model uses exact rationals.
\<close>

definition MIN_SECONDS_BETWEEN_REQUESTS :: rat where
  "MIN_SECONDS_BETWEEN_REQUESTS = 5 / 2"

definition MAX_RETRIES_429 :: nat where
  "MAX_RETRIES_429 = 6"

section \<open>Rate limit helpers\<close>

subsection \<open>Text operations of the Python runtime\<close>

text \<open>
  The text of an error is a \<^typ>\<open>string\<close>, each \<^typ>\<open>char\<close> read as one code point
  below 256. On these code points \<^verbatim>\<open>str.lower\<close> adds 32 to the letters A-Z and to
  the Latin-1 capitals U+00C0..U+00DE (U+00D7, the multiplication sign, is no letter)
  and leaves every other code point alone.
\<close>

definition lower_char :: "char \<Rightarrow> char" where
  "lower_char c =
     (let n = (of_char c :: nat)
      in if (65 \<le> n \<and> n \<le> 90) \<or> (192 \<le> n \<and> n \<le> 222 \<and> n \<noteq> 215)
         then char_of (n + 32) else c)"

definition lower :: "string \<Rightarrow> string" where
  "lower s = map lower_char s"

text \<open>\<^verbatim>\<open>needle in hay\<close> on strings: the needle starts at some position of the hay.\<close>

fun contains :: "string \<Rightarrow> string \<Rightarrow> bool" where
  "contains needle [] = (needle = [])"
| "contains needle (c # cs) = (prefix needle (c # cs) \<or> contains needle cs)"

subsection \<open>Exceptions\<close>

text \<open>
  An exception caught by \<^verbatim>\<open>except Exception as e\<close>; the code looks at nothing but
  \<^verbatim>\<open>str(e)\<close>.
\<close>

datatype exn = Exception (str: string)

text \<open>
  \<^verbatim>\<open>
  def is_rate_limit_error(e):
      return "429" in str(e) or "rate" in str(e).lower()
  \<close>
\<close>

definition is_rate_limit_error :: "exn \<Rightarrow> bool" where
  "is_rate_limit_error e = (contains ''429'' (str e) \<or> contains ''rate'' (lower (str e)))"

subsection \<open>Backoff\<close>

text \<open>
  \<^verbatim>\<open>
  def backoff_sleep(attempt):
      delay = min(20, 0.8 * (2 ** attempt))
      delay *= (0.75 + random.random() * 0.5)
      time.sleep(delay)
  \<close>
  \<open>backoff_delay\<close> is the value handed to \<^verbatim>\<open>time.sleep\<close>; \<open>r\<close> is the value drawn by
  \<^verbatim>\<open>random.random()\<close>, which lies in the half-open interval from 0 to 1.
\<close>

definition backoff_delay :: "rat \<Rightarrow> nat \<Rightarrow> rat" where
  "backoff_delay r attempt =
     (let delay = min 20 (8 / 10 * 2 ^ attempt)
      in delay * (75 / 100 + r * (5 / 10)))"

section \<open>Language detection of the routers\<close>

text \<open>
  The query is a Python \<^verbatim>\<open>str\<close>: a list of code points. Comparing one-character
  strings compares their code points.
  \<^verbatim>\<open>
  def detect_language(text):
      return "arabic" if any(U+0600 <= c <= U+06FF for c in text) else "english"
  \<close>
  (the source writes the two bounds as one-character string literals)
  in \<^verbatim>\<open>KenAgent_Draft_workflow.py\<close>, and the same with the labels \<^verbatim>\<open>"ar"\<close> and
  \<^verbatim>\<open>"en"\<close> in \<^verbatim>\<open>KenAgent_Draft_workflow_Translation.py\<close>.
\<close>

type_synonym codepoint = nat

fun any_arabic :: "codepoint list \<Rightarrow> bool" where
  "any_arabic [] = False"
| "any_arabic (c # cs) = ((0x0600 \<le> c \<and> c \<le> 0x06FF) \<or> any_arabic cs)"

definition detect_language :: "codepoint list \<Rightarrow> string" where
  "detect_language text = (if any_arabic text then ''arabic'' else ''english'')"

definition detect_language_translation :: "codepoint list \<Rightarrow> string" where
  "detect_language_translation text = (if any_arabic text then ''ar'' else ''en'')"

section \<open>The streaming call\<close>

subsection \<open>The session, the clock and what the call does to the outside\<close>

text \<open>
  \<^verbatim>\<open>st.session_state\<close> holds the two keys the call uses: \<^verbatim>\<open>in_flight\<close> (absent
  reads as false) and \<^verbatim>\<open>last_request\<close> (absent reads as \<^verbatim>\<open>None\<close>). The world adds the
  clock read by \<^verbatim>\<open>datetime.utcnow()\<close> and the record of what the call did, oldest
  first: UI warnings, sleeps (with the function that slept) and requests sent to the
  remote service (with the attempt number and the time of sending).

  Time passes in \<^verbatim>\<open>time.sleep\<close> (exactly the time asked for) and while a request is
  with the remote service; every other statement takes no time.
\<close>

datatype sleeper = Throttle | Backoff

datatype effect = Warning string | Sleep sleeper rat | Request nat rat

record world =
  in_flight :: bool
  last_request :: "rat option"
  clock :: rat
  effects :: "effect list"

definition st_warning :: "string \<Rightarrow> world \<Rightarrow> world" where
  "st_warning msg w = w\<lparr>effects := effects w @ [Warning msg]\<rparr>"

definition time_sleep :: "sleeper \<Rightarrow> rat \<Rightarrow> world \<Rightarrow> world" where
  "time_sleep who d w = w\<lparr>clock := clock w + d, effects := effects w @ [Sleep who d]\<rparr>"

text \<open>
  \<^verbatim>\<open>
  def backoff_sleep(attempt):
      ...
      time.sleep(delay)
  \<close>
\<close>

definition backoff_sleep :: "rat \<Rightarrow> nat \<Rightarrow> world \<Rightarrow> world" where
  "backoff_sleep r attempt w = time_sleep Backoff (backoff_delay r attempt) w"

text \<open>
  \<^verbatim>\<open>
  def throttle_guard():
      now = datetime.utcnow()
      last = st.session_state.get("last_request")
      if last:
          diff = (now - last).total_seconds()
          if diff < MIN_SECONDS_BETWEEN_REQUESTS:
              time.sleep(MIN_SECONDS_BETWEEN_REQUESTS - diff)
      st.session_state["last_request"] = datetime.utcnow()
  \<close>
  A \<^verbatim>\<open>datetime\<close> is always truthy, so \<^verbatim>\<open>if last\<close> tests for \<^verbatim>\<open>None\<close>.
\<close>

definition throttle_guard :: "world \<Rightarrow> world" where
  "throttle_guard w =
     (let now = clock w;
          w1 = (case last_request w of
                  None \<Rightarrow> w
                | Some last' \<Rightarrow>
                    (let diff = now - last'
                     in if diff < MIN_SECONDS_BETWEEN_REQUESTS
                        then time_sleep Throttle (MIN_SECONDS_BETWEEN_REQUESTS - diff) w
                        else w))
      in w1\<lparr>last_request := Some (clock w1)\<rparr>)"

subsection \<open>The remote service\<close>

text \<open>
  A streamed event: \<^verbatim>\<open>getattr(event, "type", None)\<close> and \<^verbatim>\<open>event.delta\<close>.
\<close>

record event =
  ev_type :: "string option"
  delta :: string

text \<open>
  What one attempt gets from \<^verbatim>\<open>openai_client.responses.create(..., stream=True)\<close> and
  the iteration over its result: the events that arrive, and the exception that ends
  them, if any. A call that raises before any event is \<open>Rejects\<close>; a stream that runs
  to its end is \<open>Succeeds\<close>.
\<close>

datatype response = Response (events: "event list") (failure: "exn option")

definition Rejects :: "exn \<Rightarrow> response" where
  "Rejects e = Response [] (Some e)"

definition Succeeds :: "event list \<Rightarrow> response" where
  "Succeeds evs = Response evs None"

text \<open>
  The environment of one call of \<open>stream_agent\<close>, by attempt number: the response of
  the remote service, the time from sending the request to the end of its stream, and
  the number \<^verbatim>\<open>random.random()\<close> returns in the backoff after the attempt.
\<close>

record env =
  remote :: "nat \<Rightarrow> response"
  latency :: "nat \<Rightarrow> rat"
  rnd :: "nat \<Rightarrow> rat"

subsection \<open>stream\_agent\<close>

text \<open>
  \<^verbatim>\<open>
  for event in stream:
      if getattr(event, "type", None) == "response.output_text.delta":
          yield event.delta
  \<close>
\<close>

fun yield_deltas :: "event list \<Rightarrow> string list" where
  "yield_deltas [] = []"
| "yield_deltas (event # stream) =
     (if ev_type event = Some ''response.output_text.delta''
      then delta event # yield_deltas stream
      else yield_deltas stream)"

text \<open>How the generator ends: \<^verbatim>\<open>return\<close>, or an exception that leaves it.\<close>

datatype outcome = Returned | Raised exn

text \<open>\<^verbatim>\<open>openai_client.responses.create(...)\<close>: the request leaves now.\<close>

definition responses_create :: "env \<Rightarrow> nat \<Rightarrow> world \<Rightarrow> world" where
  "responses_create en attempt w =
     w\<lparr>clock := clock w + latency en attempt,
       effects := effects w @ [Request attempt (clock w)]\<rparr>"

text \<open>
  \<^verbatim>\<open>
  for attempt in range(MAX_RETRIES_429 + 1):
      try:
          stream = openai_client.responses.create(...)
          for event in stream:
              if getattr(event, "type", None) == "response.output_text.delta":
                  yield event.delta
          return
      except Exception as e:
          if is_rate_limit_error(e) and attempt < MAX_RETRIES_429:
              backoff_sleep(attempt)
              continue
          raise
  \<close>
  The loop from \<open>attempt\<close> on. The result is how the generator ends, the fragments it
  yields on the way (the caller takes them all) and the world after.
\<close>

function retry_loop :: "env \<Rightarrow> nat \<Rightarrow> world \<Rightarrow> outcome \<times> string list \<times> world" where
  "retry_loop en attempt w =
     (if attempt < MAX_RETRIES_429 + 1 then
        (let w1 = responses_create en attempt w;
             yielded = yield_deltas (events (remote en attempt))
         in case failure (remote en attempt) of
              None \<Rightarrow> (Returned, yielded, w1)
            | Some e \<Rightarrow>
                if is_rate_limit_error e \<and> attempt < MAX_RETRIES_429
                then (case retry_loop en (Suc attempt) (backoff_sleep (rnd en attempt) attempt w1) of
                        (out, later, w2) \<Rightarrow> (out, yielded @ later, w2))
                else (Raised e, yielded, w1))
      else (Returned, [], w))"
  by pat_completeness auto
termination
  by (relation "measure (\<lambda>(en, attempt, w). MAX_RETRIES_429 + 1 - attempt)") auto

declare retry_loop.simps [simp del]

text \<open>
  \<^verbatim>\<open>
  def stream_agent(agent_name, conv_id, text):
      if st.session_state.get("in_flight"):
          st.warning("Request already running")
          return
      st.session_state.in_flight = True
      try:
          throttle_guard()
          for attempt in range(MAX_RETRIES_429 + 1):
              ...
      finally:
          st.session_state.in_flight = False
  \<close>
  The generator run to its end by the caller's \<^verbatim>\<open>for chunk in stream_agent(...)\<close>.
  The three arguments go into the request and nowhere else.
\<close>

definition stream_agent :: "env \<Rightarrow> world \<Rightarrow> outcome \<times> string list \<times> world" where
  "stream_agent en w =
     (if in_flight w then (Returned, [], st_warning ''Request already running'' w)
      else
        (let w1 = w\<lparr>in_flight := True\<rparr>
         in case retry_loop en 0 (throttle_guard w1) of
              (out, yielded, w2) \<Rightarrow> (out, yielded, w2\<lparr>in_flight := False\<rparr>)))"

text \<open>What a call leaves behind, read off the world.\<close>

definition request_times :: "effect list \<Rightarrow> rat list" where
  "request_times efs = concat (map (\<lambda>x. case x of Request n t \<Rightarrow> [t] | _ \<Rightarrow> []) efs)"

definition request_count :: "world \<Rightarrow> nat" where
  "request_count w = length (request_times (effects w))"

definition sleeps :: "sleeper \<Rightarrow> effect list \<Rightarrow> rat list" where
  "sleeps who efs = concat (map (\<lambda>x. case x of Sleep s d \<Rightarrow> (if s = who then [d] else []) | _ \<Rightarrow> []) efs)"

definition first_request_times :: "effect list \<Rightarrow> rat list" where
  "first_request_times efs =
     concat (map (\<lambda>x. case x of Request n t \<Rightarrow> (if n = 0 then [t] else []) | _ \<Rightarrow> []) efs)"

definition outcome_of :: "outcome \<times> string list \<times> world \<Rightarrow> outcome" where
  "outcome_of res = fst res"

definition yielded_by :: "outcome \<times> string list \<times> world \<Rightarrow> string list" where
  "yielded_by res = fst (snd res)"

definition world_after :: "outcome \<times> string list \<times> world \<Rightarrow> world" where
  "world_after res = snd (snd res)"

text \<open>Successive times are at least \<open>d\<close> apart.\<close>

fun spaced :: "rat \<Rightarrow> rat list \<Rightarrow> bool" where
  "spaced d (s # t # ts) = (d \<le> t - s \<and> spaced d (t # ts))"
| "spaced d ts = True"

text \<open>
  A session: calls of \<open>stream_agent\<close> one after the other, each run to its end as the
  chat input does (lines 239-245), each after some idle time and with its own
  environment.
\<close>

fun run_calls :: "(rat \<times> env) list \<Rightarrow> world \<Rightarrow> world" where
  "run_calls [] w = w"
| "run_calls ((idle, en) # calls) w =
     run_calls calls (world_after (stream_agent en (w\<lparr>clock := clock w + idle\<rparr>)))"

subsection \<open>Concrete sessions and remote services\<close>

definition fresh_session :: world where
  "fresh_session = \<lparr>in_flight = False, last_request = None, clock = 0, effects = []\<rparr>"

definition busy_session :: world where
  "busy_session = \<lparr>in_flight = True, last_request = Some 1, clock = 2, effects = []\<rparr>"

definition text_delta :: "string \<Rightarrow> event" where
  "text_delta s = \<lparr>ev_type = Some ''response.output_text.delta'', delta = s\<rparr>"

definition completed :: event where
  "completed = \<lparr>ev_type = Some ''response.completed'', delta = []\<rparr>"

definition untyped :: event where
  "untyped = \<lparr>ev_type = None, delta = ''ignored''\<rparr>"

definition hello_stream :: "event list" where
  "hello_stream = [untyped, text_delta ''Hel'', text_delta ''lo'', completed]"

text \<open>Rejects twice with a rate-limit error, then streams.\<close>

definition two_rejections :: env where
  "two_rejections =
     \<lparr>remote = (\<lambda>i. if i < 2 then Rejects (Exception ''Error code: 429'') else Succeeds hello_stream),
      latency = (\<lambda>i. 0), rnd = (\<lambda>i. 0)\<rparr>"

text \<open>Rejects every attempt with a rate-limit error that carries the attempt's number.\<close>

definition always_rate_limited :: env where
  "always_rate_limited =
     \<lparr>remote = (\<lambda>i. Rejects (Exception (''Rate limit reached, attempt '' @ replicate i CHR ''I''))),
      latency = (\<lambda>i. 1), rnd = (\<lambda>i. 1 / 2)\<rparr>"

text \<open>Rejects the first attempt with an error that is no rate-limit error.\<close>

definition unauthorized :: env where
  "unauthorized =
     \<lparr>remote = (\<lambda>i. Rejects (Exception ''Error code: 401'')), latency = (\<lambda>i. 1), rnd = (\<lambda>i. 0)\<rparr>"

text \<open>Streams at the first attempt.\<close>

definition streams_at_once :: env where
  "streams_at_once = \<lparr>remote = (\<lambda>i. Succeeds hello_stream), latency = (\<lambda>i. 1), rnd = (\<lambda>i. 0)\<rparr>"

text \<open>
  Rejects the first attempt with a rate-limit error after a tenth of a second, then
  streams; the backoff draws one half.
\<close>

definition rejected_once :: env where
  "rejected_once =
     \<lparr>remote = (\<lambda>i. if i < 1 then Rejects (Exception ''Error code: 429'') else Succeeds hello_stream),
      latency = (\<lambda>i. 1 / 10), rnd = (\<lambda>i. 1 / 2)\<rparr>"


text \<open>Streams at the first attempt, with no event at all.\<close>

definition empty_stream :: env where
  "empty_stream = \<lparr>remote = (\<lambda>i. Succeeds []), latency = (\<lambda>i. 1), rnd = (\<lambda>i. 0)\<rparr>"

text \<open>
  What the caller makes of a call, lines 237-247:
  \<^verbatim>\<open>
  full = ""
  try:
      for chunk in stream_agent(agent.name, st.session_state.conversation_id, user_input):
          full += chunk
          box.markdown(full)
  except Exception as e:
      full = f"Error: {e}"
      box.error(full)
  st.session_state.messages.append({"role": "assistant", "content": full})
  \<close>
  \<open>assistant_content\<close> is the final \<^verbatim>\<open>full\<close>.
\<close>

definition assistant_content :: "outcome \<times> string list \<times> world \<Rightarrow> string" where
  "assistant_content res =
     (case outcome_of res of
        Returned \<Rightarrow> concat (yielded_by res)
      | Raised e \<Rightarrow> ''Error: '' @ str e)"

section \<open>The generator, step by step\<close>

text \<open>
  \<open>stream_agent\<close> is a generator function: calling it runs none of its body, and each
  \<^verbatim>\<open>next\<close> runs the body to the next \<^verbatim>\<open>yield\<close>, to its \<^verbatim>\<open>return\<close> or to an exception
  that leaves it. A generator is new, suspended at the \<^verbatim>\<open>yield\<close> (in some attempt,
  with the events of the stream still to come), or finished.
\<close>

datatype generator = Created env | Suspended env nat "event list" | Finished

datatype signal = Yield string | StopIteration | Throw exn

text \<open>
  The body from a point inside the \<^verbatim>\<open>try\<close> block to the next \<^verbatim>\<open>yield\<close> or to the end:
  from the head of the \<^verbatim>\<open>for attempt\<close> loop (\<open>None\<close>), or from inside the
  \<^verbatim>\<open>for event in stream\<close> loop with the events still to come. Every way out of the
  \<^verbatim>\<open>try\<close> block passes the \<^verbatim>\<open>finally\<close> clause, which clears the flag.
\<close>

function run_to_yield ::
  "env \<Rightarrow> nat \<Rightarrow> event list option \<Rightarrow> world \<Rightarrow> signal \<times> generator \<times> world" where
  "run_to_yield en attempt None w =
     (if attempt < MAX_RETRIES_429 + 1
      then run_to_yield en attempt (Some (events (remote en attempt)))
             (responses_create en attempt w)
      else (StopIteration, Finished, w\<lparr>in_flight := False\<rparr>))"
| "run_to_yield en attempt (Some (event # stream)) w =
     (if ev_type event = Some ''response.output_text.delta''
      then (Yield (delta event), Suspended en attempt stream, w)
      else run_to_yield en attempt (Some stream) w)"
| "run_to_yield en attempt (Some []) w =
     (case failure (remote en attempt) of
        None \<Rightarrow> (StopIteration, Finished, w\<lparr>in_flight := False\<rparr>)
      | Some e \<Rightarrow>
          if is_rate_limit_error e \<and> attempt < MAX_RETRIES_429
          then run_to_yield en (Suc attempt) None (backoff_sleep (rnd en attempt) attempt w)
          else (Throw e, Finished, w\<lparr>in_flight := False\<rparr>))"
  by pat_completeness auto
termination
  by (relation "measures
        [\<lambda>(en, attempt, pos, w). MAX_RETRIES_429 + 1 - attempt,
         \<lambda>(en, attempt, pos, w). (case pos of None \<Rightarrow> 1 | Some stream \<Rightarrow> 0),
         \<lambda>(en, attempt, pos, w). (case pos of None \<Rightarrow> 0 | Some stream \<Rightarrow> length stream)]")
     auto

text \<open>\<^verbatim>\<open>next(g)\<close>: a new generator starts at the top of the function body.\<close>

definition gen_next :: "generator \<Rightarrow> world \<Rightarrow> signal \<times> generator \<times> world" where
  "gen_next g w =
     (case g of
        Created en \<Rightarrow>
          if in_flight w
          then (StopIteration, Finished, st_warning ''Request already running'' w)
          else run_to_yield en 0 None (throttle_guard (w\<lparr>in_flight := True\<rparr>))
      | Suspended en attempt stream \<Rightarrow> run_to_yield en attempt (Some stream) w
      | Finished \<Rightarrow> (StopIteration, Finished, w))"

text \<open>
  \<^verbatim>\<open>g.close()\<close>, also what the runtime does to a generator that is dropped: a suspended
  generator gets \<^verbatim>\<open>GeneratorExit\<close> at its \<^verbatim>\<open>yield\<close>, which \<^verbatim>\<open>except Exception\<close> does not
  catch, so the \<^verbatim>\<open>finally\<close> clause runs; a new one never runs any of its body.
\<close>

definition gen_close :: "generator \<Rightarrow> world \<Rightarrow> generator \<times> world" where
  "gen_close g w =
     (case g of
        Suspended en attempt stream \<Rightarrow> (Finished, w\<lparr>in_flight := False\<rparr>)
      | _ \<Rightarrow> (Finished, w))"

text \<open>
  Several generators over one session, stepped in any order: \<open>Call\<close> is
  \<^verbatim>\<open>stream_agent(...)\<close>, which makes a generator; \<open>Next i\<close> and \<open>Close i\<close> act on the
  \<open>i\<close>-th generator made.
\<close>

datatype action = Call env | Next nat | Close nat

fun perform :: "generator list \<times> world \<Rightarrow> action \<Rightarrow> generator list \<times> world" where
  "perform (gs, w) (Call en) = (gs @ [Created en], w)"
| "perform (gs, w) (Next i) =
     (if i < length gs
      then (case gen_next (gs ! i) w of (sig, g, w') \<Rightarrow> (gs[i := g], w'))
      else (gs, w))"
| "perform (gs, w) (Close i) =
     (if i < length gs
      then (case gen_close (gs ! i) w of (g, w') \<Rightarrow> (gs[i := g], w'))
      else (gs, w))"

definition interleave :: "action list \<Rightarrow> generator list \<times> world \<Rightarrow> generator list \<times> world" where
  "interleave acts pool = foldl perform pool acts"

text \<open>A call holds the flag from line 116 to the \<^verbatim>\<open>finally\<close> clause: while suspended.\<close>

fun holds_flag :: "generator \<Rightarrow> bool" where
  "holds_flag (Suspended en attempt stream) = True"
| "holds_flag g = False"

definition holders :: "generator list \<Rightarrow> nat" where
  "holders gs = length (filter holds_flag gs)"

text \<open>The flag is set exactly when one generator holds it, and no more than one does.\<close>

definition flag_held_once :: "generator list \<times> world \<Rightarrow> bool" where
  "flag_held_once pool = (holders (fst pool) = (if in_flight (snd pool) then 1 else 0))"

text \<open>
  \<^verbatim>\<open>for chunk in stream_agent(...)\<close>: the caller asks for the next fragment until the
  generator stops or raises. The fuel bounds the number of fragments taken.
\<close>

fun after_next ::
  "(outcome \<times> string list \<times> world) option \<Rightarrow> signal \<times> generator \<times> world
     \<Rightarrow> (outcome \<times> string list \<times> world) option" where
  "after_next later (Yield s, g, w) =
     (case later of None \<Rightarrow> None | Some (out, ys, w') \<Rightarrow> Some (out, s # ys, w'))"
| "after_next later (StopIteration, g, w) = Some (Returned, [], w)"
| "after_next later (Throw e, g, w) = Some (Raised e, [], w)"

fun drain :: "nat \<Rightarrow> generator \<Rightarrow> world \<Rightarrow> (outcome \<times> string list \<times> world) option" where
  "drain 0 g w = None"
| "drain (Suc fuel) g w =
     (case gen_next g w of
        (sig, g', w') \<Rightarrow> after_next (drain fuel g' w') (sig, g', w'))"

text \<open>
  For the comparison of the generator with the call: what the call makes of the rest
  of an attempt, from inside the event loop; the \<^verbatim>\<open>finally\<close> clause; and what a caller
  gets who has just been given \<open>r\<close> by \<^verbatim>\<open>next\<close> and goes on to the end.
\<close>

definition rest_of_attempt ::
  "env \<Rightarrow> nat \<Rightarrow> event list \<Rightarrow> world \<Rightarrow> outcome \<times> string list \<times> world" where
  "rest_of_attempt en attempt stream w =
     (let yielded = yield_deltas stream
      in case failure (remote en attempt) of
           None \<Rightarrow> (Returned, yielded, w)
         | Some e \<Rightarrow>
             if is_rate_limit_error e \<and> attempt < MAX_RETRIES_429
             then (case retry_loop en (Suc attempt) (backoff_sleep (rnd en attempt) attempt w) of
                     (out, later, w2) \<Rightarrow> (out, yielded @ later, w2))
             else (Raised e, yielded, w))"

definition finally_clause ::
  "outcome \<times> string list \<times> world \<Rightarrow> outcome \<times> string list \<times> world" where
  "finally_clause res = (case res of (out, ys, w) \<Rightarrow> (out, ys, w\<lparr>in_flight := False\<rparr>))"

definition drains_to ::
  "signal \<times> generator \<times> world \<Rightarrow> outcome \<times> string list \<times> world \<Rightarrow> bool" where
  "drains_to r res =
     (\<exists>fuel. after_next (drain fuel (fst (snd r)) (snd (snd r))) r = Some res)"

section \<open>Properties of the helpers\<close>

lemma contains_iff: "contains needle hay \<longleftrightarrow> (\<exists>a b. hay = a @ needle @ b)"
proof (induction hay)
  case Nil
  then show ?case by auto
next
  case (Cons c cs)
  show ?case
  proof
    assume "contains needle (c # cs)"
    then consider "prefix needle (c # cs)" | "contains needle cs" by auto
    then show "\<exists>a b. c # cs = a @ needle @ b"
    proof cases
      case 1
      then obtain b where "c # cs = needle @ b" by (auto simp: prefix_def)
      then have "c # cs = [] @ needle @ b" by simp
      then show ?thesis by blast
    next
      case 2
      with Cons.IH obtain a b where "cs = a @ needle @ b" by blast
      then have "c # cs = (c # a) @ needle @ b" by simp
      then show ?thesis by blast
    qed
  next
    assume "\<exists>a b. c # cs = a @ needle @ b"
    then obtain a b where ab: "c # cs = a @ needle @ b" by blast
    show "contains needle (c # cs)"
    proof (cases a)
      case Nil
      with ab have "prefix needle (c # cs)" by (simp add: prefix_def)
      then show ?thesis by simp
    next
      case (Cons x a')
      with ab have "cs = a' @ needle @ b" by simp
      with Cons.IH have "contains needle cs" by blast
      then show ?thesis by simp
    qed
  qed
qed

subsection \<open>The record of effects\<close>

lemma request_times_append:
  "request_times (xs @ ys) = request_times xs @ request_times ys"
  by (simp add: request_times_def)

lemma sleeps_append: "sleeps who (xs @ ys) = sleeps who xs @ sleeps who ys"
  by (simp add: sleeps_def)

lemma request_count_responses_create:
  "request_count (responses_create en a w) = Suc (request_count w)"
  by (simp add: request_count_def responses_create_def request_times_def)

lemma request_count_backoff_sleep:
  "request_count (backoff_sleep r a w) = request_count w"
  by (simp add: request_count_def backoff_sleep_def time_sleep_def request_times_def)

lemma request_count_throttle_guard:
  "request_count (throttle_guard w) = request_count w"
  by (simp add: request_count_def throttle_guard_def time_sleep_def request_times_def Let_def
      split: option.split)

lemma request_count_in_flight_update:
  "request_count (w\<lparr>in_flight := b\<rparr>) = request_count w"
  by (simp add: request_count_def)

lemmas request_count_simps =
  request_count_responses_create request_count_backoff_sleep request_count_throttle_guard
  request_count_in_flight_update

lemma backoff_sleeps_responses_create:
  "sleeps Backoff (effects (responses_create en a w)) = sleeps Backoff (effects w)"
  by (simp add: responses_create_def sleeps_def)

lemma backoff_sleeps_throttle_guard:
  "sleeps Backoff (effects (throttle_guard w)) = sleeps Backoff (effects w)"
  by (simp add: throttle_guard_def time_sleep_def sleeps_def Let_def split: option.split)

lemma yield_deltas_eq:
  "yield_deltas evs =
     map delta (filter (\<lambda>ev. ev_type ev = Some ''response.output_text.delta'') evs)"
  by (induction evs) simp_all

subsection \<open>One round of the retry loop\<close>

lemma retry_loop_success:
  assumes "attempt \<le> MAX_RETRIES_429" and "failure (remote en attempt) = None"
  shows "retry_loop en attempt w =
           (Returned, yield_deltas (events (remote en attempt)), responses_create en attempt w)"
  using assms by (subst retry_loop.simps) (simp add: Let_def)

lemma retry_loop_fatal:
  assumes "attempt \<le> MAX_RETRIES_429" and "failure (remote en attempt) = Some e"
    and "\<not> is_rate_limit_error e \<or> attempt = MAX_RETRIES_429"
  shows "retry_loop en attempt w =
           (Raised e, yield_deltas (events (remote en attempt)), responses_create en attempt w)"
  using assms by (subst retry_loop.simps) (auto simp add: Let_def)

lemma retry_loop_retry:
  assumes "attempt < MAX_RETRIES_429" and "failure (remote en attempt) = Some e"
    and "is_rate_limit_error e"
  shows "retry_loop en attempt w =
           (case retry_loop en (Suc attempt)
                   (backoff_sleep (rnd en attempt) attempt (responses_create en attempt w)) of
              (out, later, w2) \<Rightarrow> (out, yield_deltas (events (remote en attempt)) @ later, w2))"
  using assms by (subst retry_loop.simps) (simp add: Let_def)

lemma retry_loop_past_range:
  assumes "MAX_RETRIES_429 < attempt"
  shows "retry_loop en attempt w = (Returned, [], w)"
  using assms by (subst retry_loop.simps) simp

subsection \<open>The retry loop leaves the session alone\<close>

lemma retry_loop_session:
  "retry_loop en attempt w = (out, ys, w') \<Longrightarrow>
     in_flight w' = in_flight w \<and> last_request w' = last_request w"
proof (induction en attempt w arbitrary: out ys w' rule: retry_loop.induct)
  case (1 en attempt w)
  let ?w1 = "responses_create en attempt w"
  have w1: "in_flight ?w1 = in_flight w" "last_request ?w1 = last_request w"
    by (simp_all add: responses_create_def)
  show ?case
  proof (cases "attempt \<le> MAX_RETRIES_429")
    case False
    with "1.prems" show ?thesis by (simp add: retry_loop_past_range)
  next
    case le: True
    show ?thesis
    proof (cases "failure (remote en attempt)")
      case None
      with le "1.prems" w1 show ?thesis by (simp add: retry_loop_success)
    next
      case (Some e)
      show ?thesis
      proof (cases "is_rate_limit_error e \<and> attempt < MAX_RETRIES_429")
        case False
        then have "\<not> is_rate_limit_error e \<or> attempt = MAX_RETRIES_429" using le by auto
        with le Some "1.prems" w1 show ?thesis by (simp add: retry_loop_fatal [where e = e])
      next
        case True
        let ?w2 = "backoff_sleep (rnd en attempt) attempt ?w1"
        obtain out2 ys2 w2 where r: "retry_loop en (Suc attempt) ?w2 = (out2, ys2, w2)"
          by (cases "retry_loop en (Suc attempt) ?w2") auto
        have lt1: "attempt < MAX_RETRIES_429 + 1" using le by simp
        have "in_flight w2 = in_flight ?w2 \<and> last_request w2 = last_request ?w2"
          using "1.IH" [OF lt1 refl refl Some True r] by simp
        moreover have "in_flight ?w2 = in_flight w" "last_request ?w2 = last_request w"
          using w1 by (simp_all add: backoff_sleep_def time_sleep_def)
        moreover have "w' = w2"
          using True Some "1.prems" r by (simp add: retry_loop_retry [where e = e])
        ultimately show ?thesis by simp
      qed
    qed
  qed
qed

subsection \<open>Rejections, then an end\<close>

lemma retry_loop_rejected_then_success:
  assumes "attempt + k \<le> MAX_RETRIES_429"
    and "\<forall>i. attempt \<le> i \<and> i < attempt + k \<longrightarrow>
           (\<exists>e. remote en i = Rejects e \<and> is_rate_limit_error e)"
    and "remote en (attempt + k) = Succeeds evs"
  shows "\<exists>w'. retry_loop en attempt w = (Returned, yield_deltas evs, w')
            \<and> request_count w' = request_count w + k + 1"
  using assms
proof (induction k arbitrary: attempt w)
  case 0
  then show ?case by (simp add: retry_loop_success Succeeds_def request_count_simps)
next
  case (Suc k)
  from Suc.prems(2) obtain e where e: "remote en attempt = Rejects e" "is_rate_limit_error e"
    by force
  have lt: "attempt < MAX_RETRIES_429" using Suc.prems(1) by simp
  let ?w = "backoff_sleep (rnd en attempt) attempt (responses_create en attempt w)"
  have "\<exists>w'. retry_loop en (Suc attempt) ?w = (Returned, yield_deltas evs, w')
            \<and> request_count w' = request_count ?w + k + 1"
    using Suc.prems by (intro Suc.IH) auto
  then obtain w' where w': "retry_loop en (Suc attempt) ?w = (Returned, yield_deltas evs, w')"
    "request_count w' = request_count ?w + k + 1" by blast
  have "retry_loop en attempt w = (Returned, yield_deltas evs, w')"
    using e lt w'(1) by (simp add: retry_loop_retry [where e = e] Rejects_def)
  with w'(2) show ?case by (simp add: request_count_simps)
qed

lemma retry_loop_always_rate_limited:
  assumes "attempt + k = MAX_RETRIES_429"
    and "\<forall>i. attempt \<le> i \<and> i \<le> MAX_RETRIES_429 \<longrightarrow>
           failure (remote en i) = Some (errs i) \<and> is_rate_limit_error (errs i)"
  shows "\<exists>ys w'. retry_loop en attempt w = (Raised (errs MAX_RETRIES_429), ys, w')
            \<and> request_count w' = request_count w + k + 1"
  using assms
proof (induction k arbitrary: attempt w)
  case 0
  then have "failure (remote en attempt) = Some (errs attempt)" by auto
  with 0 show ?case
    by (simp add: retry_loop_fatal [where e = "errs attempt"] request_count_simps)
next
  case (Suc k)
  have lt: "attempt < MAX_RETRIES_429" using Suc.prems(1) by simp
  have e: "failure (remote en attempt) = Some (errs attempt)" "is_rate_limit_error (errs attempt)"
    using Suc.prems by auto
  let ?w = "backoff_sleep (rnd en attempt) attempt (responses_create en attempt w)"
  have "\<exists>ys w'. retry_loop en (Suc attempt) ?w = (Raised (errs MAX_RETRIES_429), ys, w')
            \<and> request_count w' = request_count ?w + k + 1"
    using Suc.prems by (intro Suc.IH) auto
  then obtain ys w' where w': "retry_loop en (Suc attempt) ?w = (Raised (errs MAX_RETRIES_429), ys, w')"
    "request_count w' = request_count ?w + k + 1" by blast
  have "retry_loop en attempt w =
          (Raised (errs MAX_RETRIES_429), yield_deltas (events (remote en attempt)) @ ys, w')"
    using e lt w'(1) by (simp add: retry_loop_retry [where e = "errs attempt"])
  with w'(2) show ?case by (simp add: request_count_simps)
qed

section \<open>The claims about the streaming call\<close>

text \<open>
  C1. When the flag is free and the remote service rejects the first \<open>k\<close> attempts
  (\<open>k\<close> at most \<open>MAX_RETRIES_429\<close>) with rate-limit errors and streams at the next,
  \<open>stream_agent\<close> sends exactly \<open>k + 1\<close> requests, ends by returning, and yields the
  text fragments of that stream in their order.
\<close>

theorem stream_agent_retries_then_streams:
  assumes "\<not> in_flight w"
    and "k \<le> MAX_RETRIES_429"
    and "\<forall>i<k. \<exists>e. remote en i = Rejects e \<and> is_rate_limit_error e"
    and "remote en k = Succeeds evs"
  shows "request_count (world_after (stream_agent en w)) = request_count w + (k + 1)
       \<and> outcome_of (stream_agent en w) = Returned
       \<and> yielded_by (stream_agent en w) =
           map delta (filter (\<lambda>ev. ev_type ev = Some ''response.output_text.delta'') evs)"
proof -
  let ?w = "throttle_guard (w\<lparr>in_flight := True\<rparr>)"
  have "\<exists>w'. retry_loop en 0 ?w = (Returned, yield_deltas evs, w')
            \<and> request_count w' = request_count ?w + k + 1"
    using assms(2-4) by (intro retry_loop_rejected_then_success) auto
  then obtain w' where w': "retry_loop en 0 ?w = (Returned, yield_deltas evs, w')"
    "request_count w' = request_count ?w + k + 1" by blast
  have "stream_agent en w = (Returned, yield_deltas evs, w'\<lparr>in_flight := False\<rparr>)"
    using assms(1) w'(1) by (simp add: stream_agent_def Let_def)
  with w'(2) show ?thesis
    by (simp add: outcome_of_def yielded_by_def world_after_def request_count_simps
        yield_deltas_eq)
qed

theorem stream_agent_retries_then_streams_witness:
  "\<not> in_flight fresh_session \<and> 2 \<le> MAX_RETRIES_429
   \<and> remote two_rejections 2 = Succeeds hello_stream
   \<and> request_count (world_after (stream_agent two_rejections fresh_session)) = 3
   \<and> outcome_of (stream_agent two_rejections fresh_session) = Returned
   \<and> yielded_by (stream_agent two_rejections fresh_session) = [''Hel'', ''lo'']"
proof -
  have rl: "is_rate_limit_error (Exception ''Error code: 429'')" by code_simp
  have h1: "\<not> in_flight fresh_session" by (simp add: fresh_session_def)
  have h2: "2 \<le> MAX_RETRIES_429" by (simp add: MAX_RETRIES_429_def)
  have h3: "\<forall>i<2. \<exists>e. remote two_rejections i = Rejects e \<and> is_rate_limit_error e"
    using rl by (auto simp add: two_rejections_def)
  have h4: "remote two_rejections 2 = Succeeds hello_stream" by (simp add: two_rejections_def)
  have c: "request_count fresh_session = 0"
    by (simp add: request_count_def request_times_def fresh_session_def)
  have d: "map delta (filter (\<lambda>ev. ev_type ev = Some ''response.output_text.delta'') hello_stream)
             = [''Hel'', ''lo'']"
    by (simp add: hello_stream_def text_delta_def completed_def untyped_def)
  from stream_agent_retries_then_streams [OF h1 h2 h3 h4] h1 h2 h4 c d show ?thesis by simp
qed

text \<open>
  C3. When the flag is free and every attempt ends in a rate-limit error,
  \<open>stream_agent\<close> sends exactly \<open>MAX_RETRIES_429 + 1\<close> requests and then raises the
  error of the last attempt.
\<close>

theorem stream_agent_exhausts_retries:
  assumes "\<not> in_flight w"
    and "\<forall>i\<le>MAX_RETRIES_429. failure (remote en i) = Some (errs i) \<and> is_rate_limit_error (errs i)"
  shows "request_count (world_after (stream_agent en w)) = request_count w + (MAX_RETRIES_429 + 1)
       \<and> outcome_of (stream_agent en w) = Raised (errs MAX_RETRIES_429)"
proof -
  let ?w = "throttle_guard (w\<lparr>in_flight := True\<rparr>)"
  have "\<exists>ys w'. retry_loop en 0 ?w = (Raised (errs MAX_RETRIES_429), ys, w')
            \<and> request_count w' = request_count ?w + MAX_RETRIES_429 + 1"
    using assms(2) by (intro retry_loop_always_rate_limited) auto
  then obtain ys w' where w': "retry_loop en 0 ?w = (Raised (errs MAX_RETRIES_429), ys, w')"
    "request_count w' = request_count ?w + MAX_RETRIES_429 + 1" by blast
  have "stream_agent en w = (Raised (errs MAX_RETRIES_429), ys, w'\<lparr>in_flight := False\<rparr>)"
    using assms(1) w'(1) by (simp add: stream_agent_def Let_def)
  with w'(2) show ?thesis
    by (simp add: outcome_of_def world_after_def request_count_simps)
qed

theorem stream_agent_exhausts_retries_witness:
  "\<not> in_flight fresh_session
   \<and> request_count (world_after (stream_agent always_rate_limited fresh_session)) = 7
   \<and> outcome_of (stream_agent always_rate_limited fresh_session)
       = Raised (Exception ''Rate limit reached, attempt IIIIII'')"
proof -
  let ?errs = "\<lambda>i. Exception (''Rate limit reached, attempt '' @ replicate i CHR ''I'')"
  have "lower ''Rate'' = ''rate''" by code_simp
  then have "lower (''Rate limit reached, attempt '' @ s)
               = ''rate'' @ lower ('' limit reached, attempt '' @ s)" for s
    by (simp add: lower_def)
  then have "contains ''rate'' (lower (''Rate limit reached, attempt '' @ s))" for s
    by simp
  then have rl: "is_rate_limit_error (?errs i)" for i
    by (simp add: is_rate_limit_error_def)
  have h1: "\<not> in_flight fresh_session" by (simp add: fresh_session_def)
  have h2: "\<forall>i\<le>MAX_RETRIES_429. failure (remote always_rate_limited i) = Some (?errs i)
              \<and> is_rate_limit_error (?errs i)"
    using rl by (simp add: always_rate_limited_def Rejects_def)
  have c: "request_count fresh_session = 0"
    by (simp add: request_count_def request_times_def fresh_session_def)
  have e: "?errs MAX_RETRIES_429 = Exception ''Rate limit reached, attempt IIIIII''"
    by (simp add: MAX_RETRIES_429_def eval_nat_numeral)
  from stream_agent_exhausts_retries [of fresh_session always_rate_limited ?errs, OF h1 h2] h1 c e
  show ?thesis by (simp add: MAX_RETRIES_429_def)
qed

text \<open>
  C4. When the flag is free and the first attempt ends in an error that is no
  rate-limit error, \<open>stream_agent\<close> sends exactly one request and raises that very
  error; no backoff sleep is added to the record.
\<close>

theorem stream_agent_fatal_error:
  assumes "\<not> in_flight w"
    and "failure (remote en 0) = Some e"
    and "\<not> is_rate_limit_error e"
  shows "request_count (world_after (stream_agent en w)) = request_count w + 1
       \<and> outcome_of (stream_agent en w) = Raised e
       \<and> sleeps Backoff (effects (world_after (stream_agent en w))) = sleeps Backoff (effects w)"
proof -
  let ?w = "throttle_guard (w\<lparr>in_flight := True\<rparr>)"
  have "retry_loop en 0 ?w
          = (Raised e, yield_deltas (events (remote en 0)), responses_create en 0 ?w)"
    using assms(2,3) by (intro retry_loop_fatal) auto
  then have "stream_agent en w
          = (Raised e, yield_deltas (events (remote en 0)),
             (responses_create en 0 ?w)\<lparr>in_flight := False\<rparr>)"
    using assms(1) by (simp add: stream_agent_def Let_def)
  then show ?thesis
    by (simp add: outcome_of_def world_after_def request_count_simps
        backoff_sleeps_responses_create backoff_sleeps_throttle_guard)
qed

theorem stream_agent_fatal_error_witness:
  "\<not> in_flight fresh_session
   \<and> failure (remote unauthorized 0) = Some (Exception ''Error code: 401'')
   \<and> \<not> is_rate_limit_error (Exception ''Error code: 401'')
   \<and> request_count (world_after (stream_agent unauthorized fresh_session)) = 1
   \<and> outcome_of (stream_agent unauthorized fresh_session) = Raised (Exception ''Error code: 401'')
   \<and> sleeps Backoff (effects (world_after (stream_agent unauthorized fresh_session))) = []"
proof -
  have h1: "\<not> in_flight fresh_session" by (simp add: fresh_session_def)
  have h2: "failure (remote unauthorized 0) = Some (Exception ''Error code: 401'')"
    by (simp add: unauthorized_def Rejects_def)
  have h3: "\<not> is_rate_limit_error (Exception ''Error code: 401'')" by code_simp
  have c: "request_count fresh_session = 0" "sleeps Backoff (effects fresh_session) = []"
    by (simp_all add: request_count_def request_times_def sleeps_def fresh_session_def)
  from stream_agent_fatal_error [OF h1 h2 h3] h1 h2 h3 c show ?thesis by simp
qed

text \<open>
  C5, as the code has it. A call made while the in-flight flag is set does not fail:
  it shows the warning "Request already running" and the generator returns at once
  with nothing yielded. It sends no request, sleeps for no pacing, and leaves the
  last-request timestamp, the clock and the flag as they were.
\<close>

theorem stream_agent_busy:
  assumes "in_flight w"
  shows "effects (world_after (stream_agent en w)) = effects w @ [Warning ''Request already running'']
       \<and> outcome_of (stream_agent en w) = Returned
       \<and> yielded_by (stream_agent en w) = []
       \<and> request_count (world_after (stream_agent en w)) = request_count w
       \<and> sleeps Throttle (effects (world_after (stream_agent en w))) = sleeps Throttle (effects w)
       \<and> last_request (world_after (stream_agent en w)) = last_request w
       \<and> clock (world_after (stream_agent en w)) = clock w
       \<and> in_flight (world_after (stream_agent en w))"
  using assms
  by (simp add: stream_agent_def st_warning_def outcome_of_def yielded_by_def world_after_def
      request_count_def request_times_def sleeps_def)

theorem stream_agent_busy_witness:
  "in_flight busy_session
   \<and> effects (world_after (stream_agent streams_at_once busy_session))
       = [Warning ''Request already running'']
   \<and> yielded_by (stream_agent streams_at_once busy_session) = []
   \<and> request_count (world_after (stream_agent streams_at_once busy_session)) = 0
   \<and> last_request (world_after (stream_agent streams_at_once busy_session)) = Some 1"
proof -
  have h: "in_flight busy_session" by (simp add: busy_session_def)
  have c: "effects busy_session = []" "last_request busy_session = Some 1"
    "request_count busy_session = 0"
    by (simp_all add: busy_session_def request_count_def request_times_def)
  from stream_agent_busy [OF h, of streams_at_once] h c show ?thesis by simp
qed

text \<open>
  C5, as it is written, fails: the call made while the flag is set raises nothing.
  The generator returns, so the caller's \<^verbatim>\<open>except\<close> branch is not taken, and what
  the caller holds (outcome, fragments, the content it stores for the assistant) is
  what an empty stream that ended well gives.
\<close>

theorem stream_agent_busy_counterexample:
  "in_flight busy_session
   \<and> outcome_of (stream_agent streams_at_once busy_session) = Returned
   \<and> outcome_of (stream_agent streams_at_once busy_session)
       = outcome_of (stream_agent empty_stream fresh_session)
   \<and> yielded_by (stream_agent streams_at_once busy_session)
       = yielded_by (stream_agent empty_stream fresh_session)
   \<and> assistant_content (stream_agent streams_at_once busy_session) = []
   \<and> assistant_content (stream_agent empty_stream fresh_session) = []"
  by code_simp




section \<open>Pacing\<close>

lemma first_request_times_append:
  "first_request_times (xs @ ys) = first_request_times xs @ first_request_times ys"
  by (simp add: first_request_times_def)

lemma first_request_times_responses_create:
  "first_request_times (effects (responses_create en attempt w)) =
     first_request_times (effects w) @ (if attempt = 0 then [clock w] else [])"
  by (simp add: responses_create_def first_request_times_def)

lemma first_request_times_backoff_sleep:
  "first_request_times (effects (backoff_sleep r attempt w)) = first_request_times (effects w)"
  by (simp add: backoff_sleep_def time_sleep_def first_request_times_def)

lemma first_request_times_throttle_guard:
  "first_request_times (effects (throttle_guard w)) = first_request_times (effects w)"
  by (simp add: throttle_guard_def time_sleep_def first_request_times_def Let_def
      split: option.split)

text \<open>Attempts after the first add no first request.\<close>

lemma retry_loop_later_attempts:
  "retry_loop en attempt w = (out, ys, w') \<Longrightarrow> 0 < attempt \<Longrightarrow>
     first_request_times (effects w') = first_request_times (effects w)"
proof (induction en attempt w arbitrary: out ys w' rule: retry_loop.induct)
  case (1 en attempt w)
  let ?w1 = "responses_create en attempt w"
  have w1: "first_request_times (effects ?w1) = first_request_times (effects w)"
    using "1.prems"(2) by (simp add: first_request_times_responses_create)
  show ?case
  proof (cases "attempt \<le> MAX_RETRIES_429")
    case False
    with "1.prems" show ?thesis by (simp add: retry_loop_past_range)
  next
    case le: True
    show ?thesis
    proof (cases "failure (remote en attempt)")
      case None
      with le "1.prems" w1 show ?thesis by (simp add: retry_loop_success)
    next
      case (Some e)
      show ?thesis
      proof (cases "is_rate_limit_error e \<and> attempt < MAX_RETRIES_429")
        case False
        then have "\<not> is_rate_limit_error e \<or> attempt = MAX_RETRIES_429" using le by auto
        with le Some "1.prems" w1 show ?thesis by (simp add: retry_loop_fatal [where e = e])
      next
        case True
        let ?w2 = "backoff_sleep (rnd en attempt) attempt ?w1"
        obtain out2 ys2 w2 where r: "retry_loop en (Suc attempt) ?w2 = (out2, ys2, w2)"
          by (cases "retry_loop en (Suc attempt) ?w2") auto
        have lt1: "attempt < MAX_RETRIES_429 + 1" using le by simp
        have "first_request_times (effects w2) = first_request_times (effects ?w2)"
          using "1.IH" [OF lt1 refl refl Some True r] by simp
        moreover have "w' = w2"
          using True Some "1.prems" r by (simp add: retry_loop_retry [where e = e])
        ultimately show ?thesis using w1 by (simp add: first_request_times_backoff_sleep)
      qed
    qed
  qed
qed

text \<open>The loop as \<open>stream_agent\<close> enters it adds one first request, sent at entry.\<close>

lemma retry_loop_first_request:
  assumes "retry_loop en 0 w = (out, ys, w')"
  shows "first_request_times (effects w') = first_request_times (effects w) @ [clock w]"
proof -
  let ?w1 = "responses_create en 0 w"
  have w1: "first_request_times (effects ?w1) = first_request_times (effects w) @ [clock w]"
    by (simp add: first_request_times_responses_create)
  show ?thesis
  proof (cases "failure (remote en 0)")
    case None
    with assms w1 show ?thesis by (simp add: retry_loop_success)
  next
    case (Some e)
    show ?thesis
    proof (cases "is_rate_limit_error e \<and> 0 < MAX_RETRIES_429")
      case False
      then have "\<not> is_rate_limit_error e \<or> 0 = MAX_RETRIES_429" by auto
      with Some assms w1 show ?thesis by (simp add: retry_loop_fatal [where e = e])
    next
      case True
      let ?w2 = "backoff_sleep (rnd en 0) 0 ?w1"
      obtain out2 ys2 w2 where r: "retry_loop en (Suc 0) ?w2 = (out2, ys2, w2)"
        by (cases "retry_loop en (Suc 0) ?w2") auto
      have "first_request_times (effects w2) = first_request_times (effects ?w2)"
        using r by (rule retry_loop_later_attempts) simp
      moreover have "w' = w2"
        using True Some assms r by (simp add: retry_loop_retry [where e = e])
      ultimately show ?thesis using w1 by (simp add: first_request_times_backoff_sleep)
    qed
  qed
qed

text \<open>The timestamp the throttle records: the clock after its wait.\<close>

lemma throttle_guard_timestamp:
  "last_request (throttle_guard w) = Some (clock (throttle_guard w))"
  by (simp add: throttle_guard_def Let_def)

lemma throttle_guard_clock:
  "clock (throttle_guard w) =
     (case last_request w of
        None \<Rightarrow> clock w
      | Some t \<Rightarrow> max (clock w) (t + MIN_SECONDS_BETWEEN_REQUESTS))"
  by (auto simp add: throttle_guard_def time_sleep_def Let_def split: option.split)

lemma throttle_guard_in_flight: "in_flight (throttle_guard w) = in_flight w"
  by (simp add: throttle_guard_def time_sleep_def Let_def split: option.split)

text \<open>What a call that takes the flag leaves in the session.\<close>

lemma stream_agent_acquired:
  assumes "\<not> in_flight w"
  shows "first_request_times (effects (world_after (stream_agent en w))) =
           first_request_times (effects w) @ [clock (throttle_guard (w\<lparr>in_flight := True\<rparr>))]"
    and "last_request (world_after (stream_agent en w)) =
           Some (clock (throttle_guard (w\<lparr>in_flight := True\<rparr>)))"
    and "\<not> in_flight (world_after (stream_agent en w))"
proof -
  let ?w = "throttle_guard (w\<lparr>in_flight := True\<rparr>)"
  obtain out ys w2 where r: "retry_loop en 0 ?w = (out, ys, w2)"
    by (cases "retry_loop en 0 ?w") auto
  have s: "world_after (stream_agent en w) = w2\<lparr>in_flight := False\<rparr>"
    using assms r by (simp add: stream_agent_def Let_def world_after_def)
  from retry_loop_first_request [OF r]
  show "first_request_times (effects (world_after (stream_agent en w))) =
           first_request_times (effects w) @ [clock ?w]"
    by (simp add: s first_request_times_throttle_guard)
  from retry_loop_session [OF r]
  show "last_request (world_after (stream_agent en w)) = Some (clock ?w)"
    by (simp add: s throttle_guard_timestamp)
  show "\<not> in_flight (world_after (stream_agent en w))" by (simp add: s)
qed

lemma stream_agent_refused:
  assumes "in_flight w"
  shows "first_request_times (effects (world_after (stream_agent en w))) =
           first_request_times (effects w)"
    and "last_request (world_after (stream_agent en w)) = last_request w"
  using assms
  by (simp_all add: stream_agent_def st_warning_def world_after_def first_request_times_def)

lemma spaced_snoc:
  "spaced d (ts @ [t]) \<longleftrightarrow> spaced d ts \<and> (ts = [] \<or> d \<le> t - last ts)"
  by (induction d ts rule: spaced.induct) auto

text \<open>
  The invariant of a session: the first requests of its calls are paced, and the
  timestamp is the time of the latest of them.
\<close>

lemma stream_agent_paced:
  assumes "spaced MIN_SECONDS_BETWEEN_REQUESTS (first_request_times (effects w))"
    and "first_request_times (effects w) = []
         \<or> last_request w = Some (last (first_request_times (effects w)))"
  shows "spaced MIN_SECONDS_BETWEEN_REQUESTS
           (first_request_times (effects (world_after (stream_agent en w))))
       \<and> (first_request_times (effects (world_after (stream_agent en w))) = []
          \<or> last_request (world_after (stream_agent en w)) =
              Some (last (first_request_times (effects (world_after (stream_agent en w))))))"
proof (cases "in_flight w")
  case True
  with assms show ?thesis by (simp add: stream_agent_refused)
next
  case False
  let ?T = "clock (throttle_guard (w\<lparr>in_flight := True\<rparr>))"
  have "first_request_times (effects w) = []
        \<or> MIN_SECONDS_BETWEEN_REQUESTS \<le> ?T - last (first_request_times (effects w))"
    using assms(2) by (auto simp add: throttle_guard_clock)
  with assms(1) False show ?thesis
    by (simp add: stream_agent_acquired spaced_snoc)
qed

lemma run_calls_paced:
  assumes "spaced MIN_SECONDS_BETWEEN_REQUESTS (first_request_times (effects w))"
    and "first_request_times (effects w) = []
         \<or> last_request w = Some (last (first_request_times (effects w)))"
  shows "spaced MIN_SECONDS_BETWEEN_REQUESTS (first_request_times (effects (run_calls calls w)))
       \<and> (first_request_times (effects (run_calls calls w)) = []
          \<or> last_request (run_calls calls w) =
              Some (last (first_request_times (effects (run_calls calls w)))))"
  using assms
proof (induction calls arbitrary: w)
  case Nil
  then show ?case by simp
next
  case (Cons call calls)
  obtain idle en where call: "call = (idle, en)" by (cases call)
  let ?w = "w\<lparr>clock := clock w + idle\<rparr>"
  have "spaced MIN_SECONDS_BETWEEN_REQUESTS (first_request_times (effects ?w))"
    and "first_request_times (effects ?w) = []
         \<or> last_request ?w = Some (last (first_request_times (effects ?w)))"
    using Cons.prems by simp_all
  from stream_agent_paced [OF this, of en] show ?case
    unfolding call run_calls.simps by (intro Cons.IH) simp_all
qed

text \<open>
  C2, as the code has it. The throttle runs once in a call, before the retry loop. In
  every sequence of calls the first requests of the calls are at least
  \<open>MIN_SECONDS_BETWEEN_REQUESTS\<close> apart, measured when they are sent, and the
  last-request timestamp is the time the latest of them was sent (after the pacing
  wait, not at call entry). Nothing is said of the requests the retry loop sends again.
\<close>

theorem first_requests_paced:
  assumes "effects w = []"
  shows "spaced MIN_SECONDS_BETWEEN_REQUESTS (first_request_times (effects (run_calls calls w)))
       \<and> (first_request_times (effects (run_calls calls w)) = []
          \<or> last_request (run_calls calls w) =
              Some (last (first_request_times (effects (run_calls calls w)))))"
proof -
  from assms have none: "first_request_times (effects w) = []"
    by (simp add: first_request_times_def)
  then have "spaced MIN_SECONDS_BETWEEN_REQUESTS (first_request_times (effects w))"
    by simp
  from run_calls_paced [OF this] none show ?thesis by simp
qed

theorem first_requests_paced_witness:
  "effects fresh_session = []
   \<and> first_request_times (effects (run_calls
         [(0, streams_at_once), (1 / 10, rejected_once), (5, streams_at_once)] fresh_session))
       = [0, 5 / 2, 17 / 2]
   \<and> spaced MIN_SECONDS_BETWEEN_REQUESTS (first_request_times (effects (run_calls
         [(0, streams_at_once), (1 / 10, rejected_once), (5, streams_at_once)] fresh_session)))
   \<and> last_request (run_calls
         [(0, streams_at_once), (1 / 10, rejected_once), (5, streams_at_once)] fresh_session)
       = Some (17 / 2)"
proof -
  let ?calls = "[(0, streams_at_once), (1 / 10, rejected_once), (5, streams_at_once)]"
  have h: "effects fresh_session = []" by (simp add: fresh_session_def)
  have v: "first_request_times (effects (run_calls ?calls fresh_session)) = [0, 5 / 2, 17 / 2]"
    by code_simp
  from first_requests_paced [OF h, of ?calls] h v show ?thesis by simp
qed

text \<open>
  C2, as it is written, fails: the retry loop sends its next request after the
  backoff alone, and the timestamp stays at the first request. One call whose first
  attempt is rejected sends requests at 0 and 0.9; the call after it, entered at 3,
  finds the timestamp 0, does not wait, and sends 2.1 after the request at 0.9.
\<close>

theorem requests_paced_counterexample:
  "request_times (effects (world_after (stream_agent rejected_once fresh_session))) = [0, 9 / 10]
   \<and> \<not> spaced MIN_SECONDS_BETWEEN_REQUESTS
         (request_times (effects (world_after (stream_agent rejected_once fresh_session))))
   \<and> last_request (world_after (stream_agent rejected_once fresh_session)) = Some 0
   \<and> request_times (effects (run_calls [(0, rejected_once), (2, streams_at_once)] fresh_session))
       = [0, 9 / 10, 3]
   \<and> \<not> spaced MIN_SECONDS_BETWEEN_REQUESTS
         (request_times (effects (run_calls [(0, rejected_once), (2, streams_at_once)] fresh_session)))"
  by code_simp

section \<open>The in-flight flag\<close>

lemma run_to_yield_flag:
  "run_to_yield en attempt pos w = (sig, g, w') \<Longrightarrow>
     (holds_flag g \<and> in_flight w' = in_flight w) \<or> (g = Finished \<and> \<not> in_flight w')"
proof (induction en attempt pos w arbitrary: sig g w' rule: run_to_yield.induct)
  case (1 en attempt w)
  show ?case
  proof (cases "attempt < MAX_RETRIES_429 + 1")
    case True
    with "1.prems" have "run_to_yield en attempt (Some (events (remote en attempt)))
        (responses_create en attempt w) = (sig, g, w')" by simp
    from "1.IH" [OF True this] show ?thesis by (simp add: responses_create_def)
  next
    case False
    with "1.prems" show ?thesis by auto
  qed
next
  case (2 en attempt event stream w)
  show ?case
  proof (cases "ev_type event = Some ''response.output_text.delta''")
    case True
    with "2.prems" show ?thesis by auto
  next
    case False
    with "2.prems" have "run_to_yield en attempt (Some stream) w = (sig, g, w')" by simp
    from "2.IH" [OF False this] show ?thesis .
  qed
next
  case (3 en attempt w)
  show ?case
  proof (cases "failure (remote en attempt)")
    case None
    with "3.prems" show ?thesis by auto
  next
    case (Some e)
    show ?thesis
    proof (cases "is_rate_limit_error e \<and> attempt < MAX_RETRIES_429")
      case True
      with Some "3.prems" have "run_to_yield en (Suc attempt) None
          (backoff_sleep (rnd en attempt) attempt w) = (sig, g, w')" by simp
      from "3.IH" [OF Some True this] show ?thesis
        by (simp add: backoff_sleep_def time_sleep_def)
    next
      case False
      with Some "3.prems" show ?thesis by auto
    qed
  qed
qed

lemma gen_next_holder:
  assumes "gen_next g w = (sig, g', w')" and "holds_flag g"
  shows "(holds_flag g' \<and> in_flight w' = in_flight w) \<or> (\<not> holds_flag g' \<and> \<not> in_flight w')"
proof -
  from assms(2) obtain en attempt stream where g: "g = Suspended en attempt stream"
    by (cases g) auto
  with assms(1) have "run_to_yield en attempt (Some stream) w = (sig, g', w')"
    by (simp add: gen_next_def)
  from run_to_yield_flag [OF this] show ?thesis by auto
qed

lemma gen_next_other:
  assumes "gen_next g w = (sig, g', w')" and "\<not> holds_flag g"
  shows "if in_flight w then \<not> holds_flag g' \<and> in_flight w'
         else (holds_flag g' \<and> in_flight w') \<or> (\<not> holds_flag g' \<and> \<not> in_flight w')"
proof (cases g)
  case (Created en)
  show ?thesis
  proof (cases "in_flight w")
    case True
    with Created assms(1) show ?thesis by (auto simp add: gen_next_def st_warning_def)
  next
    case False
    let ?w = "throttle_guard (w\<lparr>in_flight := True\<rparr>)"
    from False Created assms(1) have "run_to_yield en 0 None ?w = (sig, g', w')"
      by (simp add: gen_next_def)
    from run_to_yield_flag [OF this] False show ?thesis
      by (auto simp add: throttle_guard_in_flight)
  qed
next
  case (Suspended en attempt stream)
  with assms(2) show ?thesis by simp
next
  case Finished
  with assms(1) show ?thesis by (auto simp add: gen_next_def)
qed

lemma gen_close_flag:
  assumes "gen_close g w = (g', w')"
  shows "\<not> holds_flag g'"
    and "holds_flag g \<Longrightarrow> \<not> in_flight w'"
    and "\<not> holds_flag g \<Longrightarrow> in_flight w' = in_flight w"
  using assms by (cases g; auto simp add: gen_close_def)+

lemma holders_append: "holders (gs @ hs) = holders gs + holders hs"
  by (simp add: holders_def)

lemma holders_update:
  "i < length gs \<Longrightarrow>
     holders (gs[i := g]) + (if holds_flag (gs ! i) then 1 else 0) =
     holders gs + (if holds_flag g then 1 else 0)"
proof (induction gs arbitrary: i)
  case Nil
  then show ?case by simp
next
  case (Cons h gs)
  show ?case
  proof (cases i)
    case 0
    then show ?thesis by (simp add: holders_def)
  next
    case (Suc j)
    with Cons.prems have "j < length gs" by simp
    from Cons.IH [OF this] Suc show ?thesis by (simp add: holders_def)
  qed
qed

lemma perform_flag_held_once:
  assumes "flag_held_once (gs, w)"
  shows "flag_held_once (perform (gs, w) act)"
proof (cases act)
  case (Call en)
  with assms show ?thesis by (simp add: flag_held_once_def holders_append holders_def)
next
  case (Next i)
  show ?thesis
  proof (cases "i < length gs")
    case False
    with Next assms show ?thesis by simp
  next
    case True
    obtain sig g w' where n: "gen_next (gs ! i) w = (sig, g, w')"
      by (cases "gen_next (gs ! i) w") auto
    have p: "perform (gs, w) act = (gs[i := g], w')" using Next True n by simp
    note u = holders_update [OF True, of g]
    show ?thesis
    proof (cases "holds_flag (gs ! i)")
      case h: True
      have "0 < holders gs" using holders_update [OF True, of Finished] h by simp
      with assms have "in_flight w" by (auto simp add: flag_held_once_def split: if_splits)
      with gen_next_holder [OF n h] u h assms show ?thesis
        unfolding p flag_held_once_def by (auto split: if_splits)
    next
      case h: False
      with gen_next_other [OF n h] u assms show ?thesis
        unfolding p flag_held_once_def by (auto split: if_splits)
    qed
  qed
next
  case (Close i)
  show ?thesis
  proof (cases "i < length gs")
    case False
    with Close assms show ?thesis by simp
  next
    case True
    obtain g w' where c: "gen_close (gs ! i) w = (g, w')"
      by (cases "gen_close (gs ! i) w") auto
    have p: "perform (gs, w) act = (gs[i := g], w')" using Close True c by simp
    note u = holders_update [OF True, of g]
    show ?thesis
    proof (cases "holds_flag (gs ! i)")
      case h: True
      with gen_close_flag(1,2) [OF c] u assms show ?thesis
        unfolding p flag_held_once_def by (auto split: if_splits)
    next
      case h: False
      with gen_close_flag(1,3) [OF c] u assms show ?thesis
        unfolding p flag_held_once_def by (auto split: if_splits)
    qed
  qed
qed

lemma interleave_flag_held_once:
  "flag_held_once pool \<Longrightarrow> flag_held_once (interleave acts pool)"
  unfolding interleave_def
proof (induction acts arbitrary: pool)
  case Nil
  then show ?case by simp
next
  case (Cons act acts)
  obtain gs w where "pool = (gs, w)" by (cases pool)
  with Cons.prems have "flag_held_once (perform pool act)"
    by (simp add: perform_flag_held_once)
  from Cons.IH [OF this] show ?case by simp
qed

section \<open>The generator run to its end is the call\<close>

lemma retry_loop_rest_of_attempt:
  "retry_loop en attempt w =
     (if attempt < MAX_RETRIES_429 + 1
      then rest_of_attempt en attempt (events (remote en attempt)) (responses_create en attempt w)
      else (Returned, [], w))"
  by (subst retry_loop.simps) (simp add: rest_of_attempt_def Let_def)

lemma stream_agent_finally_clause:
  "stream_agent en w =
     (if in_flight w then (Returned, [], st_warning ''Request already running'' w)
      else finally_clause (retry_loop en 0 (throttle_guard (w\<lparr>in_flight := True\<rparr>))))"
  by (simp add: stream_agent_def finally_clause_def Let_def)

lemma rest_of_attempt_Cons:
  "rest_of_attempt en attempt (event # stream) w =
     (if ev_type event = Some ''response.output_text.delta''
      then (case rest_of_attempt en attempt stream w of (out, ys, w') \<Rightarrow> (out, delta event # ys, w'))
      else rest_of_attempt en attempt stream w)"
  by (simp add: rest_of_attempt_def Let_def split: option.split prod.split)

lemma drains_to_StopIteration: "drains_to (StopIteration, g, w) (Returned, [], w)"
  by (simp add: drains_to_def)

lemma drains_to_Throw: "drains_to (Throw e, g, w) (Raised e, [], w)"
  by (simp add: drains_to_def)

lemma drains_to_Yield:
  assumes "drains_to (gen_next g w) (out, ys, w')"
  shows "drains_to (Yield s, g, w) (out, s # ys, w')"
proof -
  obtain sig g1 w1 where n: "gen_next g w = (sig, g1, w1)" by (cases "gen_next g w") auto
  with assms obtain fuel where "after_next (drain fuel g1 w1) (sig, g1, w1) = Some (out, ys, w')"
    by (auto simp add: drains_to_def)
  with n have "drain (Suc fuel) g w = Some (out, ys, w')" by simp
  then have "after_next (drain (Suc fuel) g w) (Yield s, g, w) = Some (out, s # ys, w')"
    by simp
  then show ?thesis unfolding drains_to_def by (intro exI [of _ "Suc fuel"]) simp
qed

lemma drains_events:
  assumes "\<And>w. attempt < MAX_RETRIES_429 \<Longrightarrow>
      drains_to (run_to_yield en (Suc attempt) None w)
        (finally_clause (retry_loop en (Suc attempt) w))"
  shows "drains_to (run_to_yield en attempt (Some stream) w)
           (finally_clause (rest_of_attempt en attempt stream w))"
proof (induction stream)
  case Nil
  show ?case
  proof (cases "failure (remote en attempt)")
    case None
    then show ?thesis
      by (simp add: rest_of_attempt_def finally_clause_def drains_to_StopIteration)
  next
    case (Some e)
    show ?thesis
    proof (cases "is_rate_limit_error e \<and> attempt < MAX_RETRIES_429")
      case True
      let ?w = "backoff_sleep (rnd en attempt) attempt w"
      have "rest_of_attempt en attempt [] w = retry_loop en (Suc attempt) ?w"
        using Some True by (simp add: rest_of_attempt_def split: prod.split)
      moreover have "run_to_yield en attempt (Some []) w = run_to_yield en (Suc attempt) None ?w"
        using Some True by simp
      ultimately show ?thesis using assms [of ?w] True by simp
    next
      case False
      with Some show ?thesis
        by (auto simp add: rest_of_attempt_def finally_clause_def drains_to_Throw)
    qed
  qed
next
  case (Cons event stream)
  show ?case
  proof (cases "ev_type event = Some ''response.output_text.delta''")
    case False
    with Cons.IH show ?thesis by (simp add: rest_of_attempt_Cons)
  next
    case True
    obtain out ys w' where r: "rest_of_attempt en attempt stream w = (out, ys, w')"
      by (cases "rest_of_attempt en attempt stream w") auto
    have "gen_next (Suspended en attempt stream) w = run_to_yield en attempt (Some stream) w"
      by (simp add: gen_next_def)
    with Cons.IH r
    have "drains_to (gen_next (Suspended en attempt stream) w) (out, ys, w'\<lparr>in_flight := False\<rparr>)"
      by (simp add: finally_clause_def)
    from drains_to_Yield [OF this, of "delta event"] True r show ?thesis
      by (simp add: rest_of_attempt_Cons finally_clause_def)
  qed
qed

lemma drains_attempts:
  "drains_to (run_to_yield en attempt None w) (finally_clause (retry_loop en attempt w))"
proof (induction "MAX_RETRIES_429 + 1 - attempt" arbitrary: attempt w)
  case 0
  then have "\<not> attempt < MAX_RETRIES_429 + 1" by simp
  then show ?case
    by (simp add: retry_loop_rest_of_attempt finally_clause_def drains_to_StopIteration)
next
  case (Suc k)
  then have lt: "attempt < MAX_RETRIES_429 + 1" by simp
  have "drains_to (run_to_yield en (Suc attempt) None w')
          (finally_clause (retry_loop en (Suc attempt) w'))" for w'
    using Suc.hyps(2) by (intro Suc.hyps(1)) simp
  then have "drains_to (run_to_yield en attempt (Some (events (remote en attempt)))
                 (responses_create en attempt w))
          (finally_clause (rest_of_attempt en attempt (events (remote en attempt))
                 (responses_create en attempt w)))"
    by (intro drains_events) simp
  with lt show ?case by (simp add: retry_loop_rest_of_attempt)
qed

text \<open>
  A caller that takes fragments until the generator stops or raises gets what the
  call gives, and always comes to that end.
\<close>

lemma drain_stream_agent: "\<exists>fuel. drain fuel (Created en) w = Some (stream_agent en w)"
proof -
  have "drains_to (gen_next (Created en) w) (stream_agent en w)"
  proof (cases "in_flight w")
    case True
    then show ?thesis
      by (simp add: gen_next_def stream_agent_finally_clause drains_to_StopIteration)
  next
    case False
    then show ?thesis
      by (simp add: gen_next_def stream_agent_finally_clause drains_attempts
          del: run_to_yield.simps)
  qed
  then obtain fuel where
    "after_next (drain fuel (fst (snd (gen_next (Created en) w))) (snd (snd (gen_next (Created en) w))))
       (gen_next (Created en) w) = Some (stream_agent en w)"
    unfolding drains_to_def by blast
  then have "drain (Suc fuel) (Created en) w = Some (stream_agent en w)"
    by (simp add: case_prod_beta)
  then show ?thesis by blast
qed

text \<open>
  C6. A call that takes the in-flight flag leaves it false when it has ended, however
  it ends (the environment is arbitrary: a stream, exhausted retries, any raised
  error), and a caller that takes all fragments does come to that end. While
  generators of several calls are stepped or closed in any order over one session,
  at most one of them holds the flag, and the flag is set exactly when one does.
\<close>

theorem in_flight_released:
  assumes "\<not> in_flight w"
  shows "\<not> in_flight (world_after (stream_agent en w))
       \<and> (\<exists>fuel. drain fuel (Created en) w = Some (stream_agent en w))
       \<and> holders (fst (interleave acts ([], w))) \<le> 1
       \<and> (in_flight (snd (interleave acts ([], w)))
            \<longleftrightarrow> holders (fst (interleave acts ([], w))) = 1)"
proof -
  have "flag_held_once ([], w)" using assms by (simp add: flag_held_once_def holders_def)
  then have "flag_held_once (interleave acts ([], w))" by (rule interleave_flag_held_once)
  then have "holders (fst (interleave acts ([], w))) \<le> 1
       \<and> (in_flight (snd (interleave acts ([], w)))
            \<longleftrightarrow> holders (fst (interleave acts ([], w))) = 1)"
    by (simp add: flag_held_once_def split: if_splits)
  with stream_agent_acquired(3) [OF assms, of en] drain_stream_agent [of en w]
  show ?thesis by simp
qed

theorem in_flight_released_witness:
  "\<not> in_flight fresh_session
   \<and> outcome_of (stream_agent unauthorized fresh_session) = Raised (Exception ''Error code: 401'')
   \<and> \<not> in_flight (world_after (stream_agent unauthorized fresh_session))
   \<and> map holds_flag (fst (interleave
         [Call streams_at_once, Call rejected_once, Next 0, Next 1] ([], fresh_session)))
       = [True, False]
   \<and> in_flight (snd (interleave
         [Call streams_at_once, Call rejected_once, Next 0, Next 1] ([], fresh_session)))
   \<and> holders (fst (interleave
         [Call streams_at_once, Call rejected_once, Next 0, Next 1] ([], fresh_session))) = 1"
proof -
  let ?acts = "[Call streams_at_once, Call rejected_once, Next 0, Next 1]"
  have h: "\<not> in_flight fresh_session" by (simp add: fresh_session_def)
  have o: "outcome_of (stream_agent unauthorized fresh_session) = Raised (Exception ''Error code: 401'')"
    by code_simp
  have m: "map holds_flag (fst (interleave ?acts ([], fresh_session))) = [True, False]"
    by code_simp
  have "holders (fst (interleave ?acts ([], fresh_session))) = 1"
    by code_simp
  with in_flight_released [OF h, of unauthorized ?acts] h o m show ?thesis by simp
qed

section \<open>The claims about the helpers\<close>

lemma of_char_lower_char:
  "(of_char (lower_char c) :: nat) =
     (let n = of_char c
      in if (65 \<le> n \<and> n \<le> 90) \<or> (192 \<le> n \<and> n \<le> 222 \<and> n \<noteq> 215) then n + 32 else n)"
  by (auto simp: lower_char_def Let_def)

lemma lower_char_eq_iff:
  assumes "97 \<le> (of_char p :: nat)" and "(of_char p :: nat) \<le> 122"
  shows "lower_char c = p \<longleftrightarrow> c = p \<or> (of_char c :: nat) + 32 = of_char p"
proof -
  have "lower_char c = p \<longleftrightarrow> (of_char (lower_char c) :: nat) = of_char p"
    by auto
  also have "\<dots> \<longleftrightarrow> (of_char c :: nat) = of_char p \<or> (of_char c :: nat) + 32 = of_char p"
    using assms unfolding of_char_lower_char Let_def by auto
  also have "\<dots> \<longleftrightarrow> c = p \<or> (of_char c :: nat) + 32 = of_char p"
    by auto
  finally show ?thesis .
qed

lemma capital_iff:
  assumes "(of_char C :: nat) + 32 = of_char p"
  shows "(of_char c :: nat) + 32 = of_char p \<longleftrightarrow> c = C"
proof -
  have "(of_char c :: nat) + 32 = of_char p \<longleftrightarrow> (of_char c :: nat) = of_char C"
    using assms by linarith
  also have "\<dots> \<longleftrightarrow> c = C" by (simp only: of_char_eq_iff)
  finally show ?thesis .
qed

lemma lower_char_rate:
  "lower_char c = CHR ''r'' \<longleftrightarrow> c = CHR ''r'' \<or> c = CHR ''R''"
  "lower_char c = CHR ''a'' \<longleftrightarrow> c = CHR ''a'' \<or> c = CHR ''A''"
  "lower_char c = CHR ''t'' \<longleftrightarrow> c = CHR ''t'' \<or> c = CHR ''T''"
  "lower_char c = CHR ''e'' \<longleftrightarrow> c = CHR ''e'' \<or> c = CHR ''E''"
proof -
  show "lower_char c = CHR ''r'' \<longleftrightarrow> c = CHR ''r'' \<or> c = CHR ''R''"
    by (subst lower_char_eq_iff, simp, simp, subst capital_iff [where C = "CHR ''R''"]) simp_all
  show "lower_char c = CHR ''a'' \<longleftrightarrow> c = CHR ''a'' \<or> c = CHR ''A''"
    by (subst lower_char_eq_iff, simp, simp, subst capital_iff [where C = "CHR ''A''"]) simp_all
  show "lower_char c = CHR ''t'' \<longleftrightarrow> c = CHR ''t'' \<or> c = CHR ''T''"
    by (subst lower_char_eq_iff, simp, simp, subst capital_iff [where C = "CHR ''T''"]) simp_all
  show "lower_char c = CHR ''e'' \<longleftrightarrow> c = CHR ''e'' \<or> c = CHR ''E''"
    by (subst lower_char_eq_iff, simp, simp, subst capital_iff [where C = "CHR ''E''"]) simp_all
qed

lemma map_eq_rate:
  "map lower_char s = a' @ ''rate'' @ b' \<longleftrightarrow>
     (\<exists>a c1 c2 c3 c4 b. s = a @ [c1, c2, c3, c4] @ b \<and> map lower_char a = a' \<and> map lower_char b = b'
        \<and> lower_char c1 = CHR ''r'' \<and> lower_char c2 = CHR ''a''
        \<and> lower_char c3 = CHR ''t'' \<and> lower_char c4 = CHR ''e'')"
proof
  assume "map lower_char s = a' @ ''rate'' @ b'"
  then obtain a v where av: "s = a @ v" "map lower_char a = a'" "map lower_char v = ''rate'' @ b'"
    by (auto simp: map_eq_append_conv)
  from av(3) obtain c1 c2 c3 c4 b where v: "v = [c1, c2, c3, c4] @ b" "map lower_char b = b'"
    "lower_char c1 = CHR ''r''" "lower_char c2 = CHR ''a''"
    "lower_char c3 = CHR ''t''" "lower_char c4 = CHR ''e''"
    by (auto simp: map_eq_Cons_conv)
  with av show "\<exists>a c1 c2 c3 c4 b. s = a @ [c1, c2, c3, c4] @ b \<and> map lower_char a = a'
        \<and> map lower_char b = b' \<and> lower_char c1 = CHR ''r'' \<and> lower_char c2 = CHR ''a''
        \<and> lower_char c3 = CHR ''t'' \<and> lower_char c4 = CHR ''e''"
    by blast
next
  assume "\<exists>a c1 c2 c3 c4 b. s = a @ [c1, c2, c3, c4] @ b \<and> map lower_char a = a'
        \<and> map lower_char b = b' \<and> lower_char c1 = CHR ''r'' \<and> lower_char c2 = CHR ''a''
        \<and> lower_char c3 = CHR ''t'' \<and> lower_char c4 = CHR ''e''"
  then show "map lower_char s = a' @ ''rate'' @ b'" by auto
qed

text \<open>
  C9. \<open>is_rate_limit_error\<close> holds of an error exactly when its text contains
  \<^verbatim>\<open>429\<close>, or contains \<^verbatim>\<open>rate\<close> with each of the four letters in either case.
\<close>

theorem is_rate_limit_error_iff:
  "is_rate_limit_error e \<longleftrightarrow>
     (\<exists>a b. str e = a @ ''429'' @ b)
   \<or> (\<exists>a c1 c2 c3 c4 b. str e = a @ [c1, c2, c3, c4] @ b
         \<and> (c1 = CHR ''r'' \<or> c1 = CHR ''R'') \<and> (c2 = CHR ''a'' \<or> c2 = CHR ''A'')
         \<and> (c3 = CHR ''t'' \<or> c3 = CHR ''T'') \<and> (c4 = CHR ''e'' \<or> c4 = CHR ''E''))"
proof -
  have "contains ''rate'' (lower (str e)) \<longleftrightarrow>
          (\<exists>a' b'. map lower_char (str e) = a' @ ''rate'' @ b')"
    by (simp add: contains_iff lower_def)
  also have "\<dots> \<longleftrightarrow>
          (\<exists>a c1 c2 c3 c4 b. str e = a @ [c1, c2, c3, c4] @ b
             \<and> lower_char c1 = CHR ''r'' \<and> lower_char c2 = CHR ''a''
             \<and> lower_char c3 = CHR ''t'' \<and> lower_char c4 = CHR ''e'')"
    unfolding map_eq_rate by blast
  finally show ?thesis
    unfolding is_rate_limit_error_def contains_iff lower_char_rate by simp
qed

theorem is_rate_limit_error_iff_witness:
  "is_rate_limit_error (Exception ''Too Many Requests: RaTe exceeded'')
   \<and> is_rate_limit_error (Exception ''HTTP 429'')
   \<and> \<not> is_rate_limit_error (Exception ''Error code: 401'')"
proof -
  have "''Too Many Requests: RaTe exceeded'' = ''Too Many Requests: '' @ ''RaTe'' @ '' exceeded''"
    by simp
  then have 1: "is_rate_limit_error (Exception ''Too Many Requests: RaTe exceeded'')"
    unfolding is_rate_limit_error_iff exn.sel by blast
  have "''HTTP 429'' = ''HTTP '' @ ''429'' @ []" by simp
  then have 2: "is_rate_limit_error (Exception ''HTTP 429'')"
    unfolding is_rate_limit_error_iff exn.sel by blast
  have 3: "\<not> is_rate_limit_error (Exception ''Error code: 401'')" by code_simp
  from 1 2 3 show ?thesis by simp
qed

text \<open>
  C7. For every attempt number \<open>n\<close> and every random draw \<open>r\<close> with \<open>0 \<le> r < 1\<close>, the
  delay slept by \<open>backoff_sleep\<close> lies between \<open>0.75 * min(20, 0.8 * 2^n)\<close> and
  \<open>1.25 * min(20, 0.8 * 2^n)\<close>, and is at most 25.
\<close>

theorem backoff_delay_bounds:
  assumes "0 \<le> r" and "r < 1"
  shows "75 / 100 * min 20 (8 / 10 * 2 ^ n) \<le> backoff_delay r n
       \<and> backoff_delay r n \<le> 125 / 100 * min 20 (8 / 10 * 2 ^ n)
       \<and> backoff_delay r n \<le> 25
       \<and> effects (backoff_sleep r n w) = effects w @ [Sleep Backoff (backoff_delay r n)]"
proof -
  define m :: rat where "m = min 20 (8 / 10 * 2 ^ n)"
  have m0: "0 \<le> m" by (simp add: m_def)
  have m20: "m \<le> 20" by (simp add: m_def)
  have d: "backoff_delay r n = m * (75 / 100 + r * (5 / 10))"
    by (simp add: backoff_delay_def m_def Let_def)
  have lo: "m * (75 / 100) \<le> m * (75 / 100 + r * (5 / 10))"
    using m0 assms by (intro mult_left_mono) auto
  have hi: "m * (75 / 100 + r * (5 / 10)) \<le> m * (125 / 100)"
    using m0 assms by (intro mult_left_mono) auto
  have "m * (125 / 100) \<le> 25" using m20 by simp
  with lo hi d have "75 / 100 * m \<le> backoff_delay r n \<and> backoff_delay r n \<le> 125 / 100 * m
      \<and> backoff_delay r n \<le> 25"
    by (simp add: mult.commute)
  then show ?thesis
    unfolding m_def by (simp add: backoff_sleep_def time_sleep_def)
qed

theorem backoff_delay_bounds_witness:
  "(0::rat) \<le> 1 / 2 \<and> (1 / 2 :: rat) < 1
   \<and> backoff_delay (1 / 2) 3 = 32 / 5
   \<and> 75 / 100 * min 20 (8 / 10 * 2 ^ 3) \<le> backoff_delay (1 / 2) 3
   \<and> backoff_delay (1 / 2) 3 \<le> 125 / 100 * min 20 (8 / 10 * 2 ^ 3)
   \<and> backoff_delay (1 / 2) 3 \<le> 25"
proof -
  have h1: "(0::rat) \<le> 1 / 2" and h2: "(1 / 2 :: rat) < 1" by simp_all
  have v: "backoff_delay (1 / 2) 3 = 32 / 5" by (simp add: backoff_delay_def)
  from backoff_delay_bounds [OF h1 h2, of 3] h1 h2 v show ?thesis by simp
qed

text \<open>
  C10. Both \<open>detect_language\<close> functions return the Arabic label exactly when the
  text has a code point from U+0600 to U+06FF, and the English label otherwise; the
  empty text is English.
\<close>

theorem detect_language_iff:
  "(detect_language query = ''arabic'' \<longleftrightarrow> (\<exists>c\<in>set query. 0x0600 \<le> c \<and> c \<le> 0x06FF))
   \<and> (detect_language query = ''english'' \<longleftrightarrow> \<not> (\<exists>c\<in>set query. 0x0600 \<le> c \<and> c \<le> 0x06FF))
   \<and> (detect_language_translation query = ''ar'' \<longleftrightarrow> (\<exists>c\<in>set query. 0x0600 \<le> c \<and> c \<le> 0x06FF))
   \<and> (detect_language_translation query = ''en'' \<longleftrightarrow> \<not> (\<exists>c\<in>set query. 0x0600 \<le> c \<and> c \<le> 0x06FF))
   \<and> detect_language [] = ''english'' \<and> detect_language_translation [] = ''en''"
proof -
  have scan: "any_arabic cs \<longleftrightarrow> (\<exists>c\<in>set cs. 0x0600 \<le> c \<and> c \<le> 0x06FF)" for cs
  proof (induction cs)
    case Nil
    show ?case by simp
  next
    case (Cons c cs)
    then show ?case by auto
  qed
  have labels: "''arabic'' \<noteq> ''english''" "''ar'' \<noteq> ''en''" by simp_all
  show ?thesis
    unfolding detect_language_def detect_language_translation_def scan
    using labels by simp
qed

theorem detect_language_iff_witness:
  "detect_language [0x0645, 0x0631, 0x062D, 0x0628, 0x0627] = ''arabic''
   \<and> detect_language_translation [0x48, 0x69, 0x20, 0x0645] = ''ar''
   \<and> detect_language [0x48, 0x69, 0x05FF, 0x0700] = ''english''
   \<and> detect_language_translation [0x48, 0x69] = ''en''"
proof -
  note t = detect_language_iff
  have 1: "detect_language [0x0645, 0x0631, 0x062D, 0x0628, 0x0627] = ''arabic''"
    using t [of "[0x0645, 0x0631, 0x062D, 0x0628, 0x0627]"] by simp
  have 2: "detect_language_translation [0x48, 0x69, 0x20, 0x0645] = ''ar''"
    using t [of "[0x48, 0x69, 0x20, 0x0645]"] by simp
  have 3: "detect_language [0x48, 0x69, 0x05FF, 0x0700] = ''english''"
    using t [of "[0x48, 0x69, 0x05FF, 0x0700]"] by simp
  have 4: "detect_language_translation [0x48, 0x69] = ''en''"
    using t [of "[0x48, 0x69]"] by simp
  from 1 2 3 4 show ?thesis by simp
qed

end
